theory Spec2Isabelle
  imports Complex_Main
begin

section \<open>Data model (src/App.tsx, lines 6-9)\<close>

text \<open>
  \<^verbatim>\<open>type Choice = 'rock' | 'paper' | 'scissors' | null\<close> and
  \<^verbatim>\<open>type Result = 'win' | 'lose' | 'draw' | null\<close>: the three string literals are the
  constructors of a datatype, and \<^verbatim>\<open>null\<close> is \<open>None\<close>.
\<close>

datatype choice = Rock | Paper | Scissors

datatype outcome = Win | Lose | Draw

type_synonym Choice = "choice option"

type_synonym Result = "outcome option"

definition CHOICES :: "Choice list" where
  "CHOICES = [Some Rock, Some Paper, Some Scissors]"

text \<open>
  Reading a JavaScript array outside its bounds gives \<^verbatim>\<open>undefined\<close>, which every test of
  the program (\<^verbatim>\<open>!computer\<close>) treats like \<^verbatim>\<open>null\<close>: it is \<open>None\<close> here.
\<close>

definition js_index :: "Choice list \<Rightarrow> nat \<Rightarrow> Choice" where
  "js_index xs i = (if i < length xs then xs ! i else None)"

section \<open>The resolver (src/App.tsx, lines 11-22)\<close>

definition getResult :: "Choice \<Rightarrow> Choice \<Rightarrow> Result" where
  "getResult player computer =
     (if player = None \<or> computer = None then None
      else if player = computer then Some Draw
      else if (player = Some Rock \<and> computer = Some Scissors) \<or>
              (player = Some Paper \<and> computer = Some Rock) \<or>
              (player = Some Scissors \<and> computer = Some Paper)
      then Some Win
      else Some Lose)"

section \<open>The random draw and its product with 3 (line 431)\<close>

text \<open>
  \<^verbatim>\<open>Math.random()\<close> returns a double in [0,1). A non-negative double is a dyadic
  number \<open>mant / 2 ^ expo\<close>; every double in [0,1) has such a form with \<open>mant < 2 ^ 53\<close>
  and \<open>expo \<le> 1074\<close> (the smallest subnormal is \<open>2 ^ -1074\<close>), and every such pair with
  \<open>mant < 2 ^ expo\<close> is a double in [0,1). The form need not be normalised.
\<close>

datatype dbl = Dbl (mant: nat) (expo: nat)

definition dbl_val :: "dbl \<Rightarrow> real" where
  "dbl_val d = real (mant d) / 2 ^ expo d"

definition unit_double :: "dbl \<Rightarrow> bool" where
  "unit_double d \<longleftrightarrow> mant d < 2 ^ 53 \<and> expo d \<le> 1074 \<and> mant d < 2 ^ expo d"

text \<open>
  \<^verbatim>\<open>Math.random() * 3\<close> is the IEEE-754 product: the exact product, rounded to 53
  significant bits, to nearest, ties to the even significand. \<open>excess n\<close> is the number
  of bits of \<open>n\<close> beyond 53, \<open>rne n j\<close> is \<open>n / 2 ^ j\<close> rounded to the nearest integer,
  ties to even, and \<open>round53 n\<close> is \<open>n\<close> rounded to 53 significant bits. With
  \<open>expo \<le> 1074\<close> the product is a multiple of \<open>2 ^ -1074\<close>, so it neither falls
  below the subnormal grid nor overflows, and rounding the significand is all that happens.
\<close>

fun excess :: "nat \<Rightarrow> nat" where
  "excess n = (if n < 2 ^ 53 then 0 else Suc (excess (n div 2)))"

declare excess.simps [simp del]

definition rne :: "nat \<Rightarrow> nat \<Rightarrow> nat" where
  "rne n j =
     (let q = n div 2 ^ j; r = n mod 2 ^ j
      in if 2 * r < 2 ^ j then q
         else if 2 ^ j < 2 * r then q + 1
         else if even q then q else q + 1)"

definition round53 :: "nat \<Rightarrow> nat" where
  "round53 n = rne n (excess n) * 2 ^ excess n"

definition times3 :: "dbl \<Rightarrow> dbl" where
  "times3 d = Dbl (round53 (mant d * 3)) (expo d)"

text \<open>\<^verbatim>\<open>Math.floor\<close> on a non-negative double.\<close>

definition Math_floor :: "dbl \<Rightarrow> nat" where
  "Math_floor d = mant d div 2 ^ expo d"

text \<open>
  The opponent's pick, \<^verbatim>\<open>CHOICES[Math.floor(Math.random() * 3)]\<close>, with the value
  returned by \<^verbatim>\<open>Math.random()\<close> as the explicit argument.
\<close>

definition compChoice :: "dbl \<Rightarrow> Choice" where
  "compChoice r = js_index CHOICES (Math_floor (times3 r))"

text \<open>
  The doubles nearest to 1/3 and to 2/3 (the values of the JavaScript expressions
  \<^verbatim>\<open>1/3\<close> and \<^verbatim>\<open>2/3\<close>); both lie below the fractions they round.
\<close>

definition fl_third :: real where
  "fl_third = 6004799503160661 / 2 ^ 54"

definition fl_two_thirds :: real where
  "fl_two_thirds = 6004799503160661 / 2 ^ 53"

section \<open>The round controller (component App, lines 415-449)\<close>

text \<open>
  The score counters are JavaScript numbers: they start at 0 and change by \<^verbatim>\<open>+ 1\<close> only,
  so they hold natural numbers, and \<^verbatim>\<open>n + 1\<close> is the sum rounded to a double. It is
  \<open>n + 1\<close> up to \<open>2 ^ 53\<close>, where the counter stays.
\<close>

definition js_succ :: "nat \<Rightarrow> nat" where
  "js_succ n = round53 (n + 1)"

record scoreboard =
  wins :: nat
  losses :: nat
  draws :: nat

text \<open>
  The fields are the \<^verbatim>\<open>useState\<close> cells of \<^verbatim>\<open>App\<close> that the round uses. \<open>timers\<close> holds
  the pending \<^verbatim>\<open>setTimeout\<close> callbacks, oldest first; each callback is a closure over the
  \<^verbatim>\<open>choice\<close> argument of the call of \<^verbatim>\<open>handleChoice\<close> that created it, so it is
  represented by that argument.
\<close>

record state =
  playerChoice :: Choice
  computerChoice :: Choice
  result :: Result
  score :: scoreboard
  isAnimating :: bool
  timers :: "Choice list"

definition init :: state where
  "init = \<lparr> playerChoice = None, computerChoice = None, result = None,
            score = \<lparr> wins = 0, losses = 0, draws = 0 \<rparr>,
            isAnimating = False, timers = [] \<rparr>"

text \<open>
  \<^verbatim>\<open>handleChoice\<close> is a closure of one render of \<^verbatim>\<open>App\<close>: the \<^verbatim>\<open>isAnimating\<close> it tests
  is the constant of that render (line 421), which the call of \<^verbatim>\<open>setIsAnimating\<close> does not
  change. So the handler takes the rendered flag as an argument of its own, next to the
  state that its updates are applied to.
\<close>

definition handleChoice :: "bool \<Rightarrow> state \<Rightarrow> Choice \<Rightarrow> state" where
  "handleChoice rendered s choice =
     (if rendered \<or> choice = None then s
      else s \<lparr> isAnimating := True, playerChoice := choice,
               timers := timers s @ [choice] \<rparr>)"

text \<open>The body of the callback given to \<^verbatim>\<open>setTimeout\<close> (lines 430-442).\<close>

definition reveal :: "state \<Rightarrow> Choice \<Rightarrow> dbl \<Rightarrow> state" where
  "reveal s choice r =
     (let comp = compChoice r;
          gameResult = getResult choice comp;
          sc = score s
      in s \<lparr> computerChoice := comp,
             result := gameResult,
             score := (if gameResult = Some Win then sc \<lparr> wins := js_succ (wins sc) \<rparr>
                       else if gameResult = Some Lose then sc \<lparr> losses := js_succ (losses sc) \<rparr>
                       else sc \<lparr> draws := js_succ (draws sc) \<rparr>),
             isAnimating := False \<rparr>)"

definition resetGame :: "state \<Rightarrow> state" where
  "resetGame s = s \<lparr> playerChoice := None, computerChoice := None, result := None \<rparr>"

subsection \<open>What the page lets happen\<close>

text \<open>
  The handlers are reached through the rendered elements only. \<^verbatim>\<open>Scene\<close> renders the three
  clickable models, each calling \<^verbatim>\<open>onChoice\<close> with its own literal, only under
  \<^verbatim>\<open>!playerChoice\<close> (lines 346-373); \<^verbatim>\<open>App\<close> renders the PLAY AGAIN button only under
  \<^verbatim>\<open>result\<close> (lines 524-538); a timeout fires only when one is pending, the oldest first,
  and draws its random number then.

  A click on a model is delivered by the canvas library once for every mesh that the
  pointer's ray crosses under the element carrying \<^verbatim>\<open>onClick\<close>, unless a handler stops the
  propagation, which none does (line 369). All deliveries of one click call the same closure,
  so they test the same rendered flag. \<open>meshes c\<close> is the number of meshes under that element:
  the rock is one mesh (lines 46-50), the paper one box in a mesh with no geometry of its own
  (lines 89-97), the scissors a group of two blades, both at \<open>[0, 0.4, 0]\<close>, and two rings
  (lines 137-176).
\<close>

fun meshes :: "choice \<Rightarrow> nat" where
  "meshes Rock = 1"
| "meshes Paper = 1"
| "meshes Scissors = 4"

fun deliver :: "nat \<Rightarrow> bool \<Rightarrow> state \<Rightarrow> Choice \<Rightarrow> state" where
  "deliver 0 rendered s choice = s"
| "deliver (Suc n) rendered s choice = deliver n rendered (handleChoice rendered s choice) choice"

text \<open>\<open>ClickChoice c n\<close>: a click on the model of \<open>c\<close> whose ray crosses \<open>n\<close> of its meshes.\<close>

datatype event = ClickChoice choice nat | TimerFire dbl | ClickPlayAgain

fun step :: "state \<Rightarrow> event \<Rightarrow> state" where
  "step s (ClickChoice c n) =
     (if playerChoice s = None then deliver n (isAnimating s) s (Some c) else s)"
| "step s (TimerFire r) =
     (case timers s of [] \<Rightarrow> s | c # rest \<Rightarrow> reveal (s \<lparr> timers := rest \<rparr>) c r)"
| "step s ClickPlayAgain = (if result s \<noteq> None then resetGame s else s)"

fun run :: "state \<Rightarrow> event list \<Rightarrow> state" where
  "run s [] = s"
| "run s (e # es) = run (step s e) es"

fun possible :: "event \<Rightarrow> bool" where
  "possible (ClickChoice c n) = (1 \<le> n \<and> n \<le> meshes c)"
| "possible (TimerFire r) = unit_double r"
| "possible ClickPlayAgain = True"

text \<open>
  The three states of the controller in the specification, read off the cells: Idle has no
  choices and no result, AwaitingReveal is the time the flag \<open>isAnimating\<close> is up, Resolved
  has both choices and the result.
\<close>

definition Idle :: "state \<Rightarrow> bool" where
  "Idle s \<longleftrightarrow> \<not> isAnimating s \<and> playerChoice s = None \<and> computerChoice s = None
     \<and> result s = None"

definition AwaitingReveal :: "state \<Rightarrow> bool" where
  "AwaitingReveal s \<longleftrightarrow> isAnimating s"

definition Resolved :: "state \<Rightarrow> bool" where
  "Resolved s \<longleftrightarrow> \<not> isAnimating s \<and> playerChoice s \<noteq> None \<and> computerChoice s \<noteq> None
     \<and> result s \<noteq> None"

section \<open>The victory particles (component VictoryParticles, lines 239-296)\<close>

text \<open>
  The position buffer is a \<^verbatim>\<open>Float32Array\<close> of \<open>particleCount * 3\<close> numbers, particle \<open>i\<close>
  at the indices \<open>i * 3\<close>, \<open>i * 3 + 1\<close> (its height) and \<open>i * 3 + 2\<close>; the velocities
  are laid out the same way. The numbers are reals here, and what floating point does to
  them stays a parameter: \<open>fadd a v\<close> is the value that \<^verbatim>\<open>pos[i] += v\<close> stores when
  \<^verbatim>\<open>pos[i]\<close> holds \<open>a\<close> (the sum, rounded to single precision), and \<open>rnd k\<close> is the
  value stored by the \<open>k\<close>-th evaluation of \<^verbatim>\<open>(Math.random() - 0.5) * 10\<close> in the
  callback. A write outside a typed array is ignored, as \<open>xs[i := v]\<close> is outside a list.
\<close>

definition particleCount :: nat where
  "particleCount = 200"

text \<open>The body of the \<^verbatim>\<open>for\<close> loop (lines 261-271), on the buffer and the count of draws.\<close>

definition loop_body ::
  "(real \<Rightarrow> real \<Rightarrow> real) \<Rightarrow> real list \<Rightarrow> (nat \<Rightarrow> real) \<Rightarrow> nat \<Rightarrow> real list \<times> nat
     \<Rightarrow> real list \<times> nat"
where
  "loop_body fadd vel rnd i st =
     (let pos = fst st; k = snd st;
          p1 = pos[i * 3 := fadd (pos ! (i * 3)) (vel ! (i * 3))];
          p2 = p1[i * 3 + 1 := fadd (p1 ! (i * 3 + 1)) (vel ! (i * 3 + 1))];
          p3 = p2[i * 3 + 2 := fadd (p2 ! (i * 3 + 2)) (vel ! (i * 3 + 2))]
      in if 6 < p3 ! (i * 3 + 1)
         then (p3[i * 3 + 1 := - 1, i * 3 := rnd k, i * 3 + 2 := rnd (k + 1)], k + 2)
         else (p3, k))"

text \<open>\<^verbatim>\<open>for (let i = 0; i < particleCount; i++)\<close>, from the index \<open>i\<close> on.\<close>

function frame_loop ::
  "(real \<Rightarrow> real \<Rightarrow> real) \<Rightarrow> real list \<Rightarrow> (nat \<Rightarrow> real) \<Rightarrow> nat \<Rightarrow> real list \<times> nat
     \<Rightarrow> real list \<times> nat"
where
  "frame_loop fadd vel rnd i st =
     (if i < particleCount then frame_loop fadd vel rnd (i + 1) (loop_body fadd vel rnd i st)
      else st)"
  by pat_completeness auto
termination
  by (relation "measure (\<lambda>(fadd, vel, rnd, i, st). particleCount - i)") auto

declare frame_loop.simps [simp del]

text \<open>
  The callback given to \<^verbatim>\<open>useFrame\<close> (lines 257-273): \<open>ref\<close> is the buffer behind
  \<^verbatim>\<open>ref.current\<close>, or \<open>None\<close> while the points are not mounted. \<^verbatim>\<open>Scene\<close> passes
  \<^verbatim>\<open>active={result === 'win'}\<close> (line 399).
\<close>

definition useFrame_callback ::
  "(real \<Rightarrow> real \<Rightarrow> real) \<Rightarrow> bool \<Rightarrow> real list option \<Rightarrow> real list \<Rightarrow> (nat \<Rightarrow> real) \<Rightarrow> nat
     \<Rightarrow> real list option \<times> nat"
where
  "useFrame_callback fadd active ref vel rnd k =
     (case ref of
        None \<Rightarrow> (None, k)
      | Some pos \<Rightarrow>
          if active then (case frame_loop fadd vel rnd 0 (pos, k) of (pos', k') \<Rightarrow> (Some pos', k'))
          else (Some pos, k))"

definition victory_active :: "Result \<Rightarrow> bool" where
  "victory_active res \<longleftrightarrow> res = Some Win"

text \<open>
  \<open>wraps fadd vel pos i\<close>: the new height of particle \<open>i\<close> exceeds the ceiling.
  \<open>wrapped fadd vel pos a b\<close> counts the particles from \<open>a\<close> up to but not including \<open>b\<close> that do.
\<close>

definition wraps :: "(real \<Rightarrow> real \<Rightarrow> real) \<Rightarrow> real list \<Rightarrow> real list \<Rightarrow> nat \<Rightarrow> bool" where
  "wraps fadd vel pos i \<longleftrightarrow> 6 < fadd (pos ! (i * 3 + 1)) (vel ! (i * 3 + 1))"

definition wrapped ::
  "(real \<Rightarrow> real \<Rightarrow> real) \<Rightarrow> real list \<Rightarrow> real list \<Rightarrow> nat \<Rightarrow> nat \<Rightarrow> nat"
where
  "wrapped fadd vel pos a b = length (filter (wraps fadd vel pos) [a..<b])"

text \<open>
  What one frame does to particle \<open>j\<close>, from the buffer \<open>pos\<close> to the buffer \<open>pos'\<close>, when
  \<open>k\<close> draws were made before its turn.
\<close>

definition particle_after ::
  "(real \<Rightarrow> real \<Rightarrow> real) \<Rightarrow> real list \<Rightarrow> (nat \<Rightarrow> real) \<Rightarrow> nat \<Rightarrow> nat
     \<Rightarrow> real list \<Rightarrow> real list \<Rightarrow> bool"
where
  "particle_after fadd vel rnd k j pos pos' \<longleftrightarrow>
     (if 6 < fadd (pos ! (j * 3 + 1)) (vel ! (j * 3 + 1))
      then pos' ! (j * 3) = rnd k \<and> pos' ! (j * 3 + 1) = - 1 \<and> pos' ! (j * 3 + 2) = rnd (k + 1)
      else pos' ! (j * 3) = fadd (pos ! (j * 3)) (vel ! (j * 3)) \<and>
           pos' ! (j * 3 + 1) = fadd (pos ! (j * 3 + 1)) (vel ! (j * 3 + 1)) \<and>
           pos' ! (j * 3 + 2) = fadd (pos ! (j * 3 + 2)) (vel ! (j * 3 + 2)))"

text \<open>
  A buffer to try the callback on: every particle at the origin but the first, which is at
  height 6; every velocity component 1/32; every draw 3. All the sums involved
  (\<open>6 + 1/32\<close>, \<open>0 + 1/32\<close>) are single-precision numbers, so \<open>fadd\<close> is \<open>(+)\<close> on them.
\<close>

definition example_positions :: "real list" where
  "example_positions = (replicate 600 0)[1 := 6]"

definition example_velocities :: "real list" where
  "example_velocities = replicate 600 (1 / 32)"

definition example_draws :: "nat \<Rightarrow> real" where
  "example_draws k = 3"

section \<open>The resolver's table\<close>

text \<open>
  Claim C1. On the nine pairs of rock, paper and scissors the resolver follows the cyclic
  table: equal choices draw; rock against scissors, paper against rock and scissors against
  paper win; the three mirrored pairs lose.
\<close>

theorem C1_getResult_table:
  "(\<forall>a. getResult (Some a) (Some a) = Some Draw) \<and>
   getResult (Some Rock) (Some Scissors) = Some Win \<and>
   getResult (Some Scissors) (Some Rock) = Some Lose \<and>
   getResult (Some Paper) (Some Rock) = Some Win \<and>
   getResult (Some Rock) (Some Paper) = Some Lose \<and>
   getResult (Some Scissors) (Some Paper) = Some Win \<and>
   getResult (Some Paper) (Some Scissors) = Some Lose"
  by (simp add: getResult_def)

text \<open>
  Claim C5. The resolver returns no result when either input is absent, whatever the other
  input is (absent or not).
\<close>

theorem C5_getResult_absent:
  "getResult None x = None \<and> getResult x None = None"
  by (simp add: getResult_def)

section \<open>Rounding the product to a double\<close>

lemma excess_0: "n < 2 ^ 53 \<Longrightarrow> excess n = 0"
  by (subst excess.simps) simp

lemma excess_1: "2 ^ 53 \<le> n \<Longrightarrow> n < 2 ^ 54 \<Longrightarrow> excess n = 1"
  by (subst excess.simps) (simp add: excess_0)

lemma excess_2:
  assumes "2 ^ 54 \<le> n" "n < 2 ^ 55"
  shows "excess n = 2"
proof -
  from assms have "2 ^ 53 \<le> n div 2" "n div 2 < 2 ^ 54" by simp_all
  then have "excess (n div 2) = 1" by (rule excess_1)
  with assms show ?thesis by (subst excess.simps) simp
qed

lemma rne_0: "rne n 0 = n"
  by (simp add: rne_def)

text \<open>Dropping one bit, and dropping two: the result by the residue of \<open>n\<close>.\<close>

lemma rne_1:
  "(n mod 2 = 0 \<and> rne n 1 * 2 = n) \<or> (n mod 4 = 1 \<and> rne n 1 * 2 + 1 = n) \<or>
   (n mod 4 = 3 \<and> rne n 1 * 2 = n + 1)"
  unfolding rne_def Let_def by (simp; presburger)

lemma rne_2:
  "(n mod 4 = 0 \<and> rne n 2 * 4 = n) \<or> (n mod 4 = 1 \<and> rne n 2 * 4 + 1 = n) \<or>
   (n mod 4 = 3 \<and> rne n 2 * 4 = n + 1) \<or> (n mod 8 = 2 \<and> rne n 2 * 4 + 2 = n) \<or>
   (n mod 8 = 6 \<and> rne n 2 * 4 = n + 2)"
  unfolding rne_def Let_def by (simp; presburger)

lemma round53_small: "n < 2 ^ 53 \<Longrightarrow> round53 n = n"
  by (simp add: round53_def excess_0 rne_0)

lemma round53_mid:
  assumes "2 ^ 53 \<le> n" "n < 2 ^ 54"
  shows "(n mod 2 = 0 \<and> round53 n = n) \<or> (n mod 4 = 1 \<and> round53 n + 1 = n) \<or>
         (n mod 4 = 3 \<and> round53 n = n + 1)"
  using rne_1 [of n] by (simp add: round53_def excess_1 [OF assms])

lemma round53_high:
  assumes "2 ^ 54 \<le> n" "n < 2 ^ 55"
  shows "(n mod 4 = 0 \<and> round53 n = n) \<or> (n mod 4 = 1 \<and> round53 n + 1 = n) \<or>
         (n mod 4 = 3 \<and> round53 n = n + 1) \<or> (n mod 8 = 2 \<and> round53 n + 2 = n) \<or>
         (n mod 8 = 6 \<and> round53 n = n + 2)"
  using rne_2 [of n] by (simp add: round53_def excess_2 [OF assms])

text \<open>
  That this is the rounding of the standard: \<open>excess\<close> counts the bits beyond 53;
  \<open>rne\<close> is within half a unit of the quotient, exact on multiples, and even on a tie;
  the rounded significand fits 53 bits (or is \<open>2 ^ 53\<close>, the next power of two); so the
  product is exact when it fits, and within half a unit in the last place otherwise.
\<close>

lemma excess_bits:
  "n < 2 ^ 53 * 2 ^ excess n \<and> (0 < excess n \<longrightarrow> 2 ^ 52 * 2 ^ excess n \<le> n)"
proof (induction n rule: excess.induct)
  case (1 n)
  show ?case
  proof (cases "n < 2 ^ 53")
    case True
    then show ?thesis by (simp add: excess_0)
  next
    case False
    define X :: nat where "X = 2 ^ excess (n div 2)"
    have e: "excess n = Suc (excess (n div 2))" using False by (subst excess.simps) simp
    then have p: "(2::nat) ^ excess n = 2 * X" by (simp add: X_def)
    from "1.IH" [OF False] have up: "n div 2 < 2 ^ 53 * X"
      and low: "0 < excess (n div 2) \<longrightarrow> 2 ^ 52 * X \<le> n div 2" by (simp_all add: X_def)
    from up have "n < 2 ^ 53 * (2 * X)" by linarith
    moreover have "2 ^ 52 * (2 * X) \<le> n"
    proof (cases "excess (n div 2)")
      case 0
      then have "X = 1" by (simp add: X_def)
      with False show ?thesis by simp
    next
      case (Suc k)
      with low have "2 ^ 52 * X \<le> n div 2" by simp
      then show ?thesis by linarith
    qed
    ultimately show ?thesis unfolding p by simp
  qed
qed

lemma rne_nearest:
  "2 * n \<le> (2 * rne n j + 1) * 2 ^ j \<and> 2 * rne n j * 2 ^ j \<le> 2 * n + 2 ^ j"
proof -
  define P :: nat where "P = 2 ^ j"
  define q where "q = n div P"
  define r where "r = n mod P"
  have n: "n = q * P + r" by (simp add: q_def r_def)
  have r: "r < P" by (simp add: r_def P_def)
  have cases: "rne n j = q \<and> 2 * r \<le> P \<or> rne n j = q + 1 \<and> P \<le> 2 * r"
    by (auto simp: rne_def Let_def P_def [symmetric] q_def [symmetric] r_def [symmetric])
  with r show ?thesis unfolding P_def [symmetric] n
    by (auto simp: algebra_simps)
qed

lemma rne_tie: "2 * (n mod 2 ^ j) = 2 ^ j \<Longrightarrow> even (rne n j)"
  by (simp add: rne_def Let_def)

lemma rne_exact: "2 ^ j dvd n \<Longrightarrow> rne n j * 2 ^ j = n"
  by (auto simp: rne_def Let_def)

lemma round53_fits: "rne n (excess n) \<le> 2 ^ 53"
proof -
  define X :: nat where "X = 2 ^ excess n"
  have X: "0 < X" by (simp add: X_def)
  have "2 * rne n (excess n) * X \<le> 2 * n + X"
    using rne_nearest [of n "excess n"] by (simp add: X_def)
  also have "\<dots> < 2 * (2 ^ 53 * X) + X"
    using excess_bits [of n] by (simp add: X_def)
  also have "\<dots> = (2 * 2 ^ 53 + 1) * X" by (simp add: algebra_simps)
  finally have "2 * rne n (excess n) < 2 * 2 ^ 53 + 1" using X by simp
  then show ?thesis by simp
qed

lemma times3_close:
  "\<bar>dbl_val (times3 r) - 3 * dbl_val r\<bar> \<le> 2 ^ excess (mant r * 3) / 2 / 2 ^ expo r"
proof -
  define n where "n = mant r * 3"
  define R where "R = round53 n"
  define P :: nat where "P = 2 ^ excess n"
  have "2 * n \<le> 2 * R + P" "2 * R \<le> 2 * n + P"
    using rne_nearest [of n "excess n"] by (simp_all add: R_def round53_def P_def algebra_simps)
  then have "2 * real n \<le> 2 * real R + real P" "2 * real R \<le> 2 * real n + real P"
    by (metis of_nat_add of_nat_le_iff of_nat_mult of_nat_numeral)+
  then have "\<bar>real R - real n\<bar> \<le> real P / 2" by linarith
  then have "\<bar>real R - real n\<bar> / 2 ^ expo r \<le> real P / 2 / 2 ^ expo r"
    by (rule divide_right_mono) simp
  moreover have "dbl_val (times3 r) - 3 * dbl_val r = (real R - real n) / 2 ^ expo r"
    by (simp add: dbl_val_def times3_def R_def n_def diff_divide_distrib)
  ultimately show ?thesis by (simp add: P_def n_def)
qed

lemma times3_exact: "mant r * 3 < 2 ^ 53 \<Longrightarrow> dbl_val (times3 r) = 3 * dbl_val r"
  by (simp add: dbl_val_def times3_def round53_small)

lemma three_ranges:
  fixes n :: nat
  assumes "n < 3 * 2 ^ 53"
  obtains "n < 2 ^ 53" | "2 ^ 53 \<le> n" "n < 2 ^ 54" | "2 ^ 54 \<le> n" "n < 2 ^ 55"
  using assms by fastforce

lemma round53_le:
  assumes "n < 3 * 2 ^ 53"
  shows "round53 n \<le> n + 2"
  using assms
proof (cases rule: three_ranges)
  case 1
  then show ?thesis by (simp add: round53_small)
next
  case 2
  from round53_mid [OF 2] show ?thesis by linarith
next
  case 3
  from round53_high [OF 3] show ?thesis by linarith
qed

text \<open>
  Rounding does not cross a threshold up to \<open>2 ^ 53\<close>; it crosses \<open>2 ^ 54\<close> from exactly
  one number, \<open>2 ^ 54 - 1\<close>, the tie that goes up to the even significand.
\<close>

lemma round53_below_low:
  assumes "n < 3 * 2 ^ 53" "T \<le> 2 ^ 53"
  shows "round53 n < T \<longleftrightarrow> n < T"
  using assms(1)
proof (cases rule: three_ranges)
  case 1
  then show ?thesis by (simp add: round53_small)
next
  case 2
  from round53_mid [OF 2] 2 assms(2) show ?thesis by simp arith
next
  case 3
  from round53_high [OF 3] 3 assms(2) show ?thesis by simp arith
qed

lemma round53_below_54:
  assumes "n < 3 * 2 ^ 53"
  shows "round53 n < 2 ^ 54 \<longleftrightarrow> n + 1 < 2 ^ 54"
  using assms
proof (cases rule: three_ranges)
  case 1
  then show ?thesis by (simp add: round53_small)
next
  case 2
  from round53_mid [OF 2] 2 show ?thesis by simp arith
next
  case 3
  from round53_high [OF 3] 3 show ?thesis by simp arith
qed

lemma pow2_around_54:
  "(2::nat) ^ k \<le> 2 ^ 53 \<or> (2::nat) ^ k = 2 ^ 54 \<or> (2::nat) ^ 55 \<le> 2 ^ k"
proof -
  consider "k \<le> 53" | "k = 54" | "55 \<le> k" by linarith
  then show ?thesis
  proof cases
    case 1
    then have "(2::nat) ^ k \<le> 2 ^ 53" by (intro power_increasing) simp_all
    then show ?thesis by blast
  next
    case 2
    then show ?thesis by blast
  next
    case 3
    then have "(2::nat) ^ 55 \<le> 2 ^ k" by (intro power_increasing) simp_all
    then show ?thesis by blast
  qed
qed

lemma pow2_around_53:
  "(2::nat) ^ k \<le> 2 ^ 52 \<or> (2::nat) ^ k = 2 ^ 53 \<or> (2::nat) ^ 54 \<le> 2 ^ k"
proof -
  consider "k \<le> 52" | "k = 53" | "54 \<le> k" by linarith
  then show ?thesis
  proof cases
    case 1
    then have "(2::nat) ^ k \<le> 2 ^ 52" by (intro power_increasing) simp_all
    then show ?thesis by blast
  next
    case 2
    then show ?thesis by blast
  next
    case 3
    then have "(2::nat) ^ 54 \<le> 2 ^ k" by (intro power_increasing) simp_all
    then show ?thesis by blast
  qed
qed

text \<open>
  The rounded product of a double below 1 with 3, as a multiple of \<open>2 ^ - k\<close>: it stays
  below 3, and it is below 1, or at least 2, by where the factor is.
\<close>

lemma product_in_range:
  assumes "m < 2 ^ 53" "m < K"
  shows "round53 (m * 3) < 3 * K"
proof -
  have "m * 3 < 3 * 2 ^ 53" using assms by simp
  from round53_le [OF this] assms(2) show ?thesis by linarith
qed

lemma product_below_one:
  assumes m: "m < 2 ^ 53" "m < 2 ^ k"
  shows "round53 (m * 3) < 2 ^ k \<longleftrightarrow> m * 2 ^ 54 < 6004799503160661 * 2 ^ k"
proof -
  define K :: nat where "K = 2 ^ k"
  have n: "m * 3 < 3 * 2 ^ 53" using m by simp
  consider "K \<le> 2 ^ 53" | "K = 2 ^ 54" | "2 ^ 55 \<le> K"
    using pow2_around_54 [of k] by (auto simp: K_def)
  then have "round53 (m * 3) < K \<longleftrightarrow> m * 2 ^ 54 < 6004799503160661 * K"
  proof cases
    case 1
    from round53_below_low [OF n 1] have "round53 (m * 3) < K \<longleftrightarrow> m * 3 < K" .
    also have "\<dots> \<longleftrightarrow> m * 2 ^ 54 < 6004799503160661 * K" using 1 by simp arith
    finally show ?thesis .
  next
    case 2
    from round53_below_54 [OF n] have "round53 (m * 3) < K \<longleftrightarrow> m * 3 + 1 < 2 ^ 54"
      by (simp add: 2)
    also have "\<dots> \<longleftrightarrow> m * 2 ^ 54 < 6004799503160661 * K" unfolding 2 by simp
    finally show ?thesis .
  next
    case 3
    have "round53 (m * 3) < K" using round53_le [OF n] m(1) 3 by simp
    moreover have "m * 2 ^ 54 < 6004799503160661 * K" using m(1) 3 by simp
    ultimately show ?thesis by simp
  qed
  then show ?thesis by (simp add: K_def)
qed

lemma product_from_two:
  assumes m: "m < 2 ^ 53" "m < 2 ^ k"
  shows "2 * 2 ^ k \<le> round53 (m * 3) \<longleftrightarrow> 6004799503160661 * 2 ^ k \<le> m * 2 ^ 53"
proof -
  define K :: nat where "K = 2 ^ k"
  have n: "m * 3 < 3 * 2 ^ 53" using m by simp
  consider "K \<le> 2 ^ 52" | "K = 2 ^ 53" | "2 ^ 54 \<le> K"
    using pow2_around_53 [of k] by (auto simp: K_def)
  then have "round53 (m * 3) < 2 * K \<longleftrightarrow> m * 2 ^ 53 < 6004799503160661 * K"
  proof cases
    case 1
    then have "2 * K \<le> 2 ^ 53" by simp
    from round53_below_low [OF n this] have "round53 (m * 3) < 2 * K \<longleftrightarrow> m * 3 < 2 * K" .
    also have "\<dots> \<longleftrightarrow> m * 2 ^ 53 < 6004799503160661 * K" using 1 by simp arith
    finally show ?thesis .
  next
    case 2
    from round53_below_54 [OF n] have "round53 (m * 3) < 2 * K \<longleftrightarrow> m * 3 + 1 < 2 ^ 54"
      by (simp add: 2)
    also have "\<dots> \<longleftrightarrow> m * 2 ^ 53 < 6004799503160661 * K" unfolding 2 by simp
    finally show ?thesis .
  next
    case 3
    have "round53 (m * 3) < 2 * K" using round53_le [OF n] m(1) 3 by simp
    moreover have "m * 2 ^ 53 < 6004799503160661 * K" using m(1) 3 by simp
    ultimately show ?thesis by simp
  qed
  then show ?thesis unfolding K_def by linarith
qed

section \<open>The opponent's pick\<close>

lemma compChoice_index:
  "compChoice r = js_index CHOICES (round53 (mant r * 3) div 2 ^ expo r)"
  by (simp add: compChoice_def times3_def Math_floor_def)

lemma index_in_bounds:
  assumes "unit_double r"
  shows "round53 (mant r * 3) div 2 ^ expo r < 3"
proof -
  from assms have "round53 (mant r * 3) < 3 * 2 ^ expo r"
    by (intro product_in_range) (simp_all add: unit_double_def)
  then show ?thesis by (simp add: less_mult_imp_div_less)
qed

lemma compChoice_total:
  assumes "unit_double r"
  shows "compChoice r = Some Rock \<or> compChoice r = Some Paper \<or> compChoice r = Some Scissors"
proof -
  define i where "i = round53 (mant r * 3) div 2 ^ expo r"
  have "i < 3" using index_in_bounds [OF assms] by (simp add: i_def)
  then have "i = 0 \<or> i = 1 \<or> i = 2" by linarith
  then show ?thesis
    by (auto simp: compChoice_index i_def [symmetric] js_index_def CHOICES_def)
qed

lemma compChoice_not_null: "unit_double r \<Longrightarrow> compChoice r \<noteq> None"
  using compChoice_total [of r] by auto

lemma compChoice_Rock:
  assumes "unit_double r"
  shows "compChoice r = Some Rock \<longleftrightarrow> mant r * 2 ^ 54 < 6004799503160661 * 2 ^ expo r"
proof -
  define i where "i = round53 (mant r * 3) div 2 ^ expo r"
  have m: "mant r < 2 ^ 53" "mant r < 2 ^ expo r" using assms by (simp_all add: unit_double_def)
  have "i < 3" using index_in_bounds [OF assms] by (simp add: i_def)
  then have "i = 0 \<or> i = 1 \<or> i = 2" by linarith
  then have "compChoice r = Some Rock \<longleftrightarrow> i = 0"
    by (auto simp: compChoice_index i_def [symmetric] js_index_def CHOICES_def)
  also have "\<dots> \<longleftrightarrow> round53 (mant r * 3) < 2 ^ expo r"
    by (simp add: i_def div_eq_0_iff)
  also note product_below_one [OF m]
  finally show ?thesis .
qed

lemma compChoice_Scissors:
  assumes "unit_double r"
  shows "compChoice r = Some Scissors \<longleftrightarrow> 6004799503160661 * 2 ^ expo r \<le> mant r * 2 ^ 53"
proof -
  define i where "i = round53 (mant r * 3) div 2 ^ expo r"
  have m: "mant r < 2 ^ 53" "mant r < 2 ^ expo r" using assms by (simp_all add: unit_double_def)
  have "i < 3" using index_in_bounds [OF assms] by (simp add: i_def)
  then have "i = 0 \<or> i = 1 \<or> i = 2" by linarith
  then have "compChoice r = Some Scissors \<longleftrightarrow> 2 \<le> i"
    by (auto simp: compChoice_index i_def [symmetric] js_index_def CHOICES_def)
  also have "\<dots> \<longleftrightarrow> 2 * 2 ^ expo r \<le> round53 (mant r * 3)"
    by (simp add: i_def less_eq_div_iff_mult_less_eq mult.commute)
  also note product_from_two [OF m]
  finally show ?thesis .
qed

lemma below_third:
  "dbl_val r < fl_third \<longleftrightarrow> mant r * 2 ^ 54 < 6004799503160661 * 2 ^ expo r"
proof -
  have "dbl_val r < fl_third \<longleftrightarrow>
        real (mant r) * 2 ^ 54 < 6004799503160661 * 2 ^ expo r"
    unfolding dbl_val_def fl_third_def by (simp add: field_simps)
  also have "\<dots> \<longleftrightarrow> real (mant r * 2 ^ 54) < real (6004799503160661 * 2 ^ expo r)"
    by simp
  also have "\<dots> \<longleftrightarrow> mant r * 2 ^ 54 < 6004799503160661 * 2 ^ expo r"
    by (rule of_nat_less_iff)
  finally show ?thesis .
qed

lemma from_two_thirds:
  "fl_two_thirds \<le> dbl_val r \<longleftrightarrow> 6004799503160661 * 2 ^ expo r \<le> mant r * 2 ^ 53"
proof -
  have "fl_two_thirds \<le> dbl_val r \<longleftrightarrow>
        6004799503160661 * 2 ^ expo r \<le> real (mant r) * 2 ^ 53"
    unfolding dbl_val_def fl_two_thirds_def by (simp add: field_simps)
  also have "\<dots> \<longleftrightarrow> real (6004799503160661 * 2 ^ expo r) \<le> real (mant r * 2 ^ 53)"
    by simp
  also have "\<dots> \<longleftrightarrow> 6004799503160661 * 2 ^ expo r \<le> mant r * 2 ^ 53"
    by (rule of_nat_le_iff)
  finally show ?thesis .
qed

lemma fl_values:
  "fl_third = 1 / 3 - 1 / (3 * 2 ^ 54)" "fl_two_thirds = 2 / 3 - 1 / (3 * 2 ^ 53)"
  by (simp_all add: fl_third_def fl_two_thirds_def)

lemma index_read: "unit_double r \<Longrightarrow> compChoice r = CHOICES ! Math_floor (times3 r)"
  using index_in_bounds [of r]
  by (simp add: compChoice_def js_index_def CHOICES_def times3_def Math_floor_def)

lemma getResult_not_null: "getResult (Some c) (Some c') \<noteq> None"
  by (simp add: getResult_def)

lemma reveal_fields:
  "computerChoice (reveal s ch r) = compChoice r"
  "result (reveal s ch r) = getResult ch (compChoice r)"
  "playerChoice (reveal s ch r) = playerChoice s"
  "isAnimating (reveal s ch r) = False"
  "timers (reveal s ch r) = timers s"
  by (simp_all add: reveal_def Let_def)

lemmas pick_eval = compChoice_def times3_def round53_def Math_floor_def js_index_def CHOICES_def
  rne_def Let_def excess_0 excess_1 excess_2

text \<open>
  Claim C10. For every draw in [0,1) the index \<open>Math.floor(r * 3)\<close> is 0, 1 or 2, inside
  \<open>CHOICES\<close>, so the opponent's pick is not null; hence a round that resolves with a
  non-null player choice computes a non-null result.
\<close>

theorem C10_pick_in_bounds:
  assumes "unit_double r"
  shows "Math_floor (times3 r) < length CHOICES \<and> Math_floor (times3 r) \<in> {0, 1, 2} \<and>
         compChoice r \<noteq> None \<and>
         (\<forall>c. getResult (Some c) (compChoice r) \<noteq> None) \<and>
         (\<forall>s c. result (reveal s (Some c) r) \<noteq> None)"
proof -
  have i: "Math_floor (times3 r) < 3"
    using index_in_bounds [OF assms] by (simp add: times3_def Math_floor_def)
  then have "Math_floor (times3 r) \<in> {0, 1, 2}" by auto
  moreover obtain c' where c': "compChoice r = Some c'"
    using compChoice_not_null [OF assms] by blast
  ultimately show ?thesis using i
    by (simp add: CHOICES_def reveal_fields getResult_not_null)
qed

text \<open>The largest double below 1: the product rounds to \<open>3 - 2 ^ -51\<close>, index 2.\<close>

theorem C10_pick_in_bounds_witness:
  "Math_floor (times3 (Dbl 9007199254740991 53)) = 2 \<and>
   compChoice (Dbl 9007199254740991 53) = Some Scissors"
proof -
  have "unit_double (Dbl 9007199254740991 53)" by (simp add: unit_double_def)
  from C10_pick_in_bounds [OF this] show ?thesis by (simp add: pick_eval)
qed

text \<open>
  Claim C8, as the program has it. With the draw \<open>r\<close>, a double in [0,1), as an explicit
  input, the opponent selector returns \<open>CHOICES[floor(r * 3)]\<close>, where the product is the
  rounded double product: rock exactly for \<open>r\<close> below \<open>fl_third\<close>, paper exactly for \<open>r\<close>
  from \<open>fl_third\<close> up to but not including \<open>fl_two_thirds\<close>, scissors exactly for \<open>r\<close> from
  \<open>fl_two_thirds\<close> on. The two thresholds are the doubles nearest to 1/3 and 2/3, below
  them by \<open>1 / (3 * 2 ^ 54)\<close> and \<open>1 / (3 * 2 ^ 53)\<close>. The pick depends on \<open>r\<close> only: the
  callback stores the same pick whatever the state and the player's choice.
\<close>

theorem C8_opponent_selector:
  assumes "unit_double r"
  shows "compChoice r = CHOICES ! Math_floor (times3 r) \<and>
         (compChoice r = Some Rock \<longleftrightarrow> dbl_val r < fl_third) \<and>
         (compChoice r = Some Paper \<longleftrightarrow> fl_third \<le> dbl_val r \<and> dbl_val r < fl_two_thirds) \<and>
         (compChoice r = Some Scissors \<longleftrightarrow> fl_two_thirds \<le> dbl_val r) \<and>
         fl_third = 1 / 3 - 1 / (3 * 2 ^ 54) \<and> fl_two_thirds = 2 / 3 - 1 / (3 * 2 ^ 53) \<and>
         (\<forall>s ch. computerChoice (reveal s ch r) = compChoice r)"
proof -
  have rock: "compChoice r = Some Rock \<longleftrightarrow> dbl_val r < fl_third"
    by (simp add: compChoice_Rock [OF assms] below_third)
  have scissors: "compChoice r = Some Scissors \<longleftrightarrow> fl_two_thirds \<le> dbl_val r"
    by (simp add: compChoice_Scissors [OF assms] from_two_thirds)
  have "compChoice r = Some Paper \<longleftrightarrow> compChoice r \<noteq> Some Rock \<and> compChoice r \<noteq> Some Scissors"
    using compChoice_total [OF assms] by auto
  then have paper:
    "compChoice r = Some Paper \<longleftrightarrow> fl_third \<le> dbl_val r \<and> dbl_val r < fl_two_thirds"
    unfolding rock scissors by auto
  show ?thesis
    using rock paper scissors fl_values index_read [OF assms] by (simp add: reveal_fields)
qed

theorem C8_opponent_selector_witness:
  "compChoice (Dbl 6004799503160661 53) = Some Scissors \<and>
   fl_two_thirds \<le> dbl_val (Dbl 6004799503160661 53)"
proof -
  have "unit_double (Dbl 6004799503160661 53)" by (simp add: unit_double_def)
  moreover have "fl_two_thirds \<le> dbl_val (Dbl 6004799503160661 53)"
    by (simp add: dbl_val_def fl_two_thirds_def)
  ultimately show ?thesis using C8_opponent_selector [of "Dbl 6004799503160661 53"] by blast
qed

text \<open>
  The draw \<open>6004799503160661 / 2 ^ 53\<close> (printed 0.6666666666666666) lies in [1/3, 2/3),
  where the claim promises paper. Three times it is \<open>2 - 2 ^ -53\<close>, halfway between the
  doubles \<open>2 - 2 ^ -52\<close> and 2, and the tie goes to 2: the pick is scissors.
\<close>

theorem C8_two_thirds_counterexample:
  "unit_double (Dbl 6004799503160661 53) \<and>
   1 / 3 \<le> dbl_val (Dbl 6004799503160661 53) \<and> dbl_val (Dbl 6004799503160661 53) < 2 / 3 \<and>
   compChoice (Dbl 6004799503160661 53) = Some Scissors"
  by (simp add: unit_double_def dbl_val_def pick_eval)

section \<open>Rounds on the page\<close>

lemma js_succ_exact: "n + 1 < 2 ^ 53 \<Longrightarrow> js_succ n = n + 1"
  by (simp add: js_succ_def round53_small)

lemma js_succ_absorbed: "js_succ (2 ^ 53) = 2 ^ 53"
  by (simp add: js_succ_def round53_def rne_def Let_def excess_1)

lemma js_succ_bounds:
  assumes "n \<le> 2 ^ 53"
  shows "n \<le> js_succ n \<and> js_succ n \<le> n + 1 \<and> js_succ n \<le> 2 ^ 53"
proof -
  consider "n + 1 < 2 ^ 53" | "n + 1 = 2 ^ 53" | "n = 2 ^ 53" using assms by linarith
  then show ?thesis
  proof cases
    case 1
    then show ?thesis by (simp add: js_succ_exact)
  next
    case 2
    then have "js_succ n = 2 ^ 53"
      by (simp add: js_succ_def round53_def rne_def Let_def excess_1)
    with 2 show ?thesis by simp
  next
    case 3
    show ?thesis unfolding 3 js_succ_absorbed by simp
  qed
qed

lemma deliver_one: "deliver 1 rendered s choice = handleChoice rendered s choice"
  by simp

lemma deliver_two:
  "deliver 2 rendered s choice = handleChoice rendered (handleChoice rendered s choice) choice"
  by (simp add: numeral_2_eq_2)

text \<open>
  What the guards do keep. While the rendered flag is up every delivery is ignored; while a
  player choice is set no model is rendered and a click changes nothing. The deliveries of
  one click from a render with the flag down are all accepted: each arms a timeout, and
  they all write the same player choice.
\<close>

lemma deliver_flag_up: "deliver n True s choice = s"
  by (induction n) (simp_all add: handleChoice_def)

lemma click_with_choice_set: "playerChoice s \<noteq> None \<Longrightarrow> step s (ClickChoice c n) = s"
  by auto

lemma deliver_timers: "timers (deliver n False s (Some c)) = timers s @ replicate n (Some c)"
  by (induction n arbitrary: s) (simp_all add: handleChoice_def replicate_app_Cons_same)

lemma deliver_playerChoice: "0 < n \<Longrightarrow> playerChoice (deliver n False s (Some c)) = Some c"
proof (induction n arbitrary: s)
  case 0
  then show ?case by simp
next
  case (Suc n)
  show ?case
  proof (cases n)
    case 0
    then show ?thesis by (simp add: handleChoice_def)
  next
    case (Suc m)
    then show ?thesis using Suc.IH [of "handleChoice False s (Some c)"] by simp
  qed
qed

lemma score_handleChoice: "score (handleChoice rendered s ch) = score s"
  by (simp add: handleChoice_def)

lemma score_resetGame: "score (resetGame s) = score s"
  by (simp add: resetGame_def)

lemma deliver_score: "score (deliver n rendered s ch) = score s"
  by (induction n arbitrary: s) (simp_all add: score_handleChoice)

text \<open>
  No event lowers a counter, and the counters stay within \<open>2 ^ 53\<close>: only the timeout
  callback changes the score, by \<^verbatim>\<open>+ 1\<close> on one counter.
\<close>

lemma score_reveal:
  assumes "wins (score s) \<le> 2 ^ 53" "losses (score s) \<le> 2 ^ 53" "draws (score s) \<le> 2 ^ 53"
  shows "wins (score s) \<le> wins (score (reveal s ch r)) \<and>
         losses (score s) \<le> losses (score (reveal s ch r)) \<and>
         draws (score s) \<le> draws (score (reveal s ch r)) \<and>
         wins (score (reveal s ch r)) \<le> 2 ^ 53 \<and>
         losses (score (reveal s ch r)) \<le> 2 ^ 53 \<and>
         draws (score (reveal s ch r)) \<le> 2 ^ 53"
  using assms js_succ_bounds [of "wins (score s)"] js_succ_bounds [of "losses (score s)"]
    js_succ_bounds [of "draws (score s)"]
  by (simp add: reveal_def Let_def)

lemma score_step:
  assumes "wins (score s) \<le> 2 ^ 53" "losses (score s) \<le> 2 ^ 53" "draws (score s) \<le> 2 ^ 53"
  shows "wins (score s) \<le> wins (score (step s e)) \<and>
         losses (score s) \<le> losses (score (step s e)) \<and>
         draws (score s) \<le> draws (score (step s e)) \<and>
         wins (score (step s e)) \<le> 2 ^ 53 \<and>
         losses (score (step s e)) \<le> 2 ^ 53 \<and>
         draws (score (step s e)) \<le> 2 ^ 53"
proof (cases e)
  case (ClickChoice c n)
  with assms show ?thesis by (simp add: deliver_score)
next
  case (TimerFire r)
  show ?thesis
  proof (cases "timers s")
    case Nil
    with TimerFire assms show ?thesis by simp
  next
    case (Cons ch rest)
    with TimerFire assms score_reveal [of "s\<lparr>timers := rest\<rparr>" ch r] show ?thesis by simp
  qed
next
  case ClickPlayAgain
  with assms show ?thesis by (simp add: score_resetGame)
qed

lemma score_run:
  assumes "wins (score s) \<le> 2 ^ 53" "losses (score s) \<le> 2 ^ 53" "draws (score s) \<le> 2 ^ 53"
  shows "wins (score s) \<le> wins (score (run s es)) \<and>
         losses (score s) \<le> losses (score (run s es)) \<and>
         draws (score s) \<le> draws (score (run s es))"
  using assms
proof (induction es arbitrary: s)
  case Nil
  show ?case by simp
next
  case (Cons e es)
  have st: "wins (score s) \<le> wins (score (step s e))"
    "losses (score s) \<le> losses (score (step s e))"
    "draws (score s) \<le> draws (score (step s e))"
    and b: "wins (score (step s e)) \<le> 2 ^ 53" "losses (score (step s e)) \<le> 2 ^ 53"
    "draws (score (step s e)) \<le> 2 ^ 53"
    using score_step [OF Cons.prems, of e] by blast+
  from Cons.IH [OF b] st show ?case
    unfolding run.simps by (meson order_trans)
qed

text \<open>The draws 3/4 and 2/4: the opponent has scissors for the first, paper for the second.\<close>

lemma compChoice_three_quarters: "compChoice (Dbl 3 2) = Some Scissors"
  by (simp add: pick_eval)

lemma compChoice_half: "compChoice (Dbl 2 2) = Some Paper"
  by (simp add: pick_eval)

lemma unit_three_quarters: "unit_double (Dbl 3 2)"
  by (simp add: unit_double_def)

lemma unit_half: "unit_double (Dbl 2 2)"
  by (simp add: unit_double_def)

lemmas round_eval = init_def handleChoice_def reveal_def Let_def resetGame_def getResult_def
  Idle_def Resolved_def AwaitingReveal_def compChoice_three_quarters compChoice_half
  deliver_one deliver_two js_succ_exact

text \<open>A first round: a click on the rock, the draw 3/4.\<close>

lemma first_round:
  "run init [ClickChoice Rock 1, TimerFire (Dbl 3 2)] =
     \<lparr> playerChoice = Some Rock, computerChoice = Some Scissors, result = Some Win,
       score = \<lparr> wins = 1, losses = 0, draws = 0 \<rparr>, isAnimating = False, timers = [] \<rparr>"
  by (simp add: round_eval)

section \<open>Reset\<close>

text \<open>
  Claim C6. In the Resolved state the PLAY AGAIN button runs \<open>resetGame\<close>, which leaves the
  controller Idle: player choice, opponent choice and result are all absent; and the score
  is what it was.
\<close>

theorem C6_reset:
  assumes "Resolved s"
  shows "step s ClickPlayAgain = resetGame s \<and> Idle (resetGame s) \<and>
         playerChoice (resetGame s) = None \<and> computerChoice (resetGame s) = None \<and>
         result (resetGame s) = None \<and> score (resetGame s) = score s"
  using assms by (simp add: Resolved_def Idle_def resetGame_def)

theorem C6_reset_witness:
  "Resolved (run init [ClickChoice Rock 1, TimerFire (Dbl 3 2)]) \<and>
   Idle (resetGame (run init [ClickChoice Rock 1, TimerFire (Dbl 3 2)])) \<and>
   score (resetGame (run init [ClickChoice Rock 1, TimerFire (Dbl 3 2)]))
     = \<lparr> wins = 1, losses = 0, draws = 0 \<rparr>"
proof -
  have r: "Resolved (run init [ClickChoice Rock 1, TimerFire (Dbl 3 2)])"
    unfolding first_round by (simp add: Resolved_def)
  from C6_reset [OF r] r show ?thesis by (simp add: round_eval)
qed

section \<open>One click on the scissors, two timeouts\<close>

text \<open>
  A click on the scissors where the two blades overlap is delivered twice. The first
  delivery starts the round; the second finds the rendered flag still down and is accepted
  as well. Both timeouts run their callback, with a draw each.
\<close>

lemma twice_possible:
  "list_all possible [ClickChoice Scissors 2, TimerFire (Dbl 3 2), TimerFire (Dbl 2 2)]"
  "list_all possible [ClickChoice Scissors 2, TimerFire (Dbl 3 2), TimerFire (Dbl 3 2)]"
  by (simp_all add: unit_three_quarters unit_half)

lemma twice_armed:
  "step init (ClickChoice Scissors 2) =
     \<lparr> playerChoice = Some Scissors, computerChoice = None, result = None,
       score = \<lparr> wins = 0, losses = 0, draws = 0 \<rparr>, isAnimating = True,
       timers = [Some Scissors, Some Scissors] \<rparr>"
  by (simp add: round_eval)

lemma twice_first_callback:
  "run init [ClickChoice Scissors 2, TimerFire (Dbl 3 2)] =
     \<lparr> playerChoice = Some Scissors, computerChoice = Some Scissors, result = Some Draw,
       score = \<lparr> wins = 0, losses = 0, draws = 1 \<rparr>, isAnimating = False,
       timers = [Some Scissors] \<rparr>"
  by (simp add: round_eval)

lemma twice_second_callback:
  "run init [ClickChoice Scissors 2, TimerFire (Dbl 3 2), TimerFire (Dbl 2 2)] =
     \<lparr> playerChoice = Some Scissors, computerChoice = Some Paper, result = Some Win,
       score = \<lparr> wins = 1, losses = 0, draws = 1 \<rparr>, isAnimating = False, timers = [] \<rparr>"
  by (simp add: round_eval)

lemma twice_same_counter:
  "run init [ClickChoice Scissors 2, TimerFire (Dbl 3 2), TimerFire (Dbl 3 2)] =
     \<lparr> playerChoice = Some Scissors, computerChoice = Some Scissors, result = Some Draw,
       score = \<lparr> wins = 0, losses = 0, draws = 2 \<rparr>, isAnimating = False, timers = [] \<rparr>"
  by (simp add: round_eval)

text \<open>
  Claim C2, at that click. After the first delivery the controller awaits the reveal; the
  second delivery is not ignored: it arms a second timeout. (It writes the same player
  choice again.)
\<close>

theorem C2_second_delivery_accepted:
  "possible (ClickChoice Scissors 2) \<and>
   AwaitingReveal (handleChoice (isAnimating init) init (Some Scissors)) \<and>
   timers (handleChoice (isAnimating init) init (Some Scissors)) = [Some Scissors] \<and>
   step init (ClickChoice Scissors 2) =
     handleChoice (isAnimating init) (handleChoice (isAnimating init) init (Some Scissors))
       (Some Scissors) \<and>
   timers (step init (ClickChoice Scissors 2)) = [Some Scissors, Some Scissors] \<and>
   playerChoice (step init (ClickChoice Scissors 2)) = Some Scissors"
  by (simp add: round_eval)

text \<open>
  Claim C3, at that click. The round that the click starts resolves twice: the first
  callback raises the draws, the second the wins. Two counters are one more than before the
  round, not one.
\<close>

theorem C3_two_counters_in_one_round:
  "score init = \<lparr> wins = 0, losses = 0, draws = 0 \<rparr> \<and>
   score (run init [ClickChoice Scissors 2, TimerFire (Dbl 3 2), TimerFire (Dbl 2 2)])
     = \<lparr> wins = 1, losses = 0, draws = 1 \<rparr>"
  unfolding twice_second_callback by (simp add: init_def)

text \<open>
  Claim C4, at that click. The first callback sets the opponent choice to scissors; the
  second sets it to paper, and the result from draw to win, with no reset in between.
\<close>

theorem C4_opponent_choice_overwritten:
  "computerChoice (run init [ClickChoice Scissors 2, TimerFire (Dbl 3 2)]) = Some Scissors \<and>
   result (run init [ClickChoice Scissors 2, TimerFire (Dbl 3 2)]) = Some Draw \<and>
   computerChoice (run init [ClickChoice Scissors 2, TimerFire (Dbl 3 2), TimerFire (Dbl 2 2)])
     = Some Paper \<and>
   result (run init [ClickChoice Scissors 2, TimerFire (Dbl 3 2), TimerFire (Dbl 2 2)])
     = Some Win"
  unfolding twice_first_callback twice_second_callback by simp

text \<open>
  Claim C7, at that click, with the draw 3/4 both times: the one round raises the draws
  counter twice.
\<close>

theorem C7_counter_twice_in_one_round:
  "draws (score init) = 0 \<and>
   draws (score (run init [ClickChoice Scissors 2, TimerFire (Dbl 3 2), TimerFire (Dbl 3 2)])) = 2"
  unfolding twice_same_counter by (simp add: init_def)

section \<open>One frame of the particles\<close>

lemma length_loop_body: "length (fst (loop_body fadd vel rnd i st)) = length (fst st)"
  by (simp add: loop_body_def Let_def)

lemma other_loop_body:
  "idx \<noteq> i * 3 \<Longrightarrow> idx \<noteq> i * 3 + 1 \<Longrightarrow> idx \<noteq> i * 3 + 2 \<Longrightarrow>
   fst (loop_body fadd vel rnd i st) ! idx = fst st ! idx"
  by (simp add: loop_body_def Let_def)

lemma own_loop_body:
  assumes "i * 3 + 2 < length (fst st)"
  shows "particle_after fadd vel rnd (snd st) i (fst st) (fst (loop_body fadd vel rnd i st))"
  using assms by (simp add: particle_after_def loop_body_def Let_def)

lemma draws_loop_body:
  assumes "i * 3 + 2 < length (fst st)"
  shows "snd (loop_body fadd vel rnd i st)
           = snd st + (if wraps fadd vel (fst st) i then 2 else 0)"
  using assms by (simp add: wraps_def loop_body_def Let_def)

lemma wraps_loop_body:
  "j \<noteq> i \<Longrightarrow> wraps fadd vel (fst (loop_body fadd vel rnd i st)) j = wraps fadd vel (fst st) j"
proof -
  assume "j \<noteq> i"
  then have "j * 3 + 1 \<noteq> i * 3" "j * 3 + 1 \<noteq> i * 3 + 1" "j * 3 + 1 \<noteq> i * 3 + 2"
    by presburger+
  then have "fst (loop_body fadd vel rnd i st) ! (j * 3 + 1) = fst st ! (j * 3 + 1)"
    by (rule other_loop_body)
  then show ?thesis by (simp only: wraps_def)
qed

lemma wrapped_loop_body:
  "i < a \<Longrightarrow> wrapped fadd vel (fst (loop_body fadd vel rnd i st)) a b = wrapped fadd vel (fst st) a b"
  unfolding wrapped_def
  by (rule arg_cong [where f = length], rule filter_cong) (simp_all add: wraps_loop_body)

lemma wrapped_first:
  "a < b \<Longrightarrow> wrapped fadd vel pos a b
     = (if wraps fadd vel pos a then 1 else 0) + wrapped fadd vel pos (a + 1) b"
  by (simp add: wrapped_def upt_conv_Cons)

lemma wrapped_none: "wrapped fadd vel pos a a = 0"
  by (simp add: wrapped_def)

lemma particle_after_same:
  assumes "particle_after fadd vel rnd k j pos1 pos1'"
    and "pos2 ! (j * 3) = pos1 ! (j * 3)" "pos2 ! (j * 3 + 1) = pos1 ! (j * 3 + 1)"
      "pos2 ! (j * 3 + 2) = pos1 ! (j * 3 + 2)"
    and "pos2' ! (j * 3) = pos1' ! (j * 3)" "pos2' ! (j * 3 + 1) = pos1' ! (j * 3 + 1)"
      "pos2' ! (j * 3 + 2) = pos1' ! (j * 3 + 2)"
  shows "particle_after fadd vel rnd k j pos2 pos2'"
  using assms(1) unfolding particle_after_def assms(2-7) .

lemma length_frame_loop: "length (fst (frame_loop fadd vel rnd i st)) = length (fst st)"
proof (induction fadd vel rnd i st rule: frame_loop.induct)
  case (1 fadd vel rnd i st)
  show ?case
  proof (cases "i < particleCount")
    case True
    with "1.IH" show ?thesis by (subst frame_loop.simps) (simp add: length_loop_body)
  next
    case False
    then show ?thesis by (subst frame_loop.simps) simp
  qed
qed

lemma earlier_frame_loop:
  "idx < i * 3 \<Longrightarrow> fst (frame_loop fadd vel rnd i st) ! idx = fst st ! idx"
proof (induction fadd vel rnd i st rule: frame_loop.induct)
  case (1 fadd vel rnd i st)
  show ?case
  proof (cases "i < particleCount")
    case True
    have "fst (frame_loop fadd vel rnd i st) ! idx
            = fst (frame_loop fadd vel rnd (i + 1) (loop_body fadd vel rnd i st)) ! idx"
      using True by (subst frame_loop.simps) simp
    also have "\<dots> = fst (loop_body fadd vel rnd i st) ! idx"
      using "1.prems" by (intro "1.IH" [OF True]) simp
    also have "\<dots> = fst st ! idx"
      using "1.prems" by (intro other_loop_body) simp_all
    finally show ?thesis .
  next
    case False
    then show ?thesis by (subst frame_loop.simps) simp
  qed
qed

text \<open>The draws that the loop makes from \<open>i\<close> on: two for each particle that wraps.\<close>

lemma draws_frame_loop:
  assumes "i \<le> particleCount" "particleCount * 3 \<le> length (fst st)"
  shows "snd (frame_loop fadd vel rnd i st)
           = snd st + 2 * wrapped fadd vel (fst st) i particleCount"
  using assms
proof (induction fadd vel rnd i st rule: frame_loop.induct)
  case (1 fadd vel rnd i st)
  let ?st = "loop_body fadd vel rnd i st"
  show ?case
  proof (cases "i < particleCount")
    case True
    have unfold: "frame_loop fadd vel rnd i st = frame_loop fadd vel rnd (i + 1) ?st"
      using True by (subst frame_loop.simps) simp
    have len: "i * 3 + 2 < length (fst st)" using True "1.prems"(2) by linarith
    have "snd (frame_loop fadd vel rnd (i + 1) ?st)
            = snd ?st + 2 * wrapped fadd vel (fst ?st) (i + 1) particleCount"
      using True "1.prems"(2) by (intro "1.IH" [OF True]) (simp_all add: length_loop_body)
    also have "wrapped fadd vel (fst ?st) (i + 1) particleCount
                 = wrapped fadd vel (fst st) (i + 1) particleCount"
      by (rule wrapped_loop_body) simp
    finally show ?thesis
      unfolding unfold by (simp add: draws_loop_body [OF len] wrapped_first [OF True])
  next
    case False
    with "1.prems"(1) have "i = particleCount" by simp
    then show ?thesis by (subst frame_loop.simps) (simp add: wrapped_none)
  qed
qed

text \<open>
  Each particle from \<open>i\<close> on is moved once, from where the loop found it, and if it wraps it
  takes the two draws that follow those of the wrapping particles before it.
\<close>

lemma particle_frame_loop:
  assumes "i \<le> j" "j < particleCount" "particleCount * 3 \<le> length (fst st)"
  shows "particle_after fadd vel rnd (snd st + 2 * wrapped fadd vel (fst st) i j) j (fst st)
           (fst (frame_loop fadd vel rnd i st))"
  using assms
proof (induction fadd vel rnd i st rule: frame_loop.induct)
  case (1 fadd vel rnd i st)
  let ?st = "loop_body fadd vel rnd i st"
  from "1.prems" have i: "i < particleCount" by simp
  have unfold: "frame_loop fadd vel rnd i st = frame_loop fadd vel rnd (i + 1) ?st"
    using i by (subst frame_loop.simps) simp
  have leni: "i * 3 + 2 < length (fst st)" using i "1.prems"(3) by linarith
  show ?case
  proof (cases "i = j")
    case True
    have len: "j * 3 + 2 < length (fst st)" using leni True by simp
    have "particle_after fadd vel rnd (snd st) j (fst st)
            (fst (frame_loop fadd vel rnd (j + 1) (loop_body fadd vel rnd j st)))"
    proof (rule particle_after_same [OF own_loop_body [OF len, of fadd vel rnd]])
      show "fst (frame_loop fadd vel rnd (j + 1) (loop_body fadd vel rnd j st)) ! (j * 3)
              = fst (loop_body fadd vel rnd j st) ! (j * 3)"
        by (rule earlier_frame_loop) simp
      show "fst (frame_loop fadd vel rnd (j + 1) (loop_body fadd vel rnd j st)) ! (j * 3 + 1)
              = fst (loop_body fadd vel rnd j st) ! (j * 3 + 1)"
        by (rule earlier_frame_loop) simp
      show "fst (frame_loop fadd vel rnd (j + 1) (loop_body fadd vel rnd j st)) ! (j * 3 + 2)
              = fst (loop_body fadd vel rnd j st) ! (j * 3 + 2)"
        by (rule earlier_frame_loop) simp
    qed (rule refl)+
    moreover have "frame_loop fadd vel rnd i st
                     = frame_loop fadd vel rnd (j + 1) (loop_body fadd vel rnd j st)"
      unfolding True [symmetric] by (rule unfold)
    moreover have "snd st + 2 * wrapped fadd vel (fst st) i j = snd st"
      by (simp add: True wrapped_none)
    ultimately show ?thesis by (simp only:)
  next
    case False
    with "1.prems" have le: "i + 1 \<le> j" by simp
    then have ij: "i < j" by simp
    have len: "particleCount * 3 \<le> length (fst ?st)"
      using "1.prems"(3) by (simp add: length_loop_body)
    have eff: "particle_after fadd vel rnd (snd ?st + 2 * wrapped fadd vel (fst ?st) (i + 1) j) j
                 (fst ?st) (fst (frame_loop fadd vel rnd (i + 1) ?st))"
      by (rule "1.IH" [OF i le "1.prems"(2) len])
    have count: "snd ?st + 2 * wrapped fadd vel (fst ?st) (i + 1) j
                   = snd st + 2 * wrapped fadd vel (fst st) i j"
      by (simp add: draws_loop_body [OF leni] wrapped_first [OF ij] wrapped_loop_body)
    have "particle_after fadd vel rnd (snd st + 2 * wrapped fadd vel (fst st) i j) j (fst st)
            (fst (frame_loop fadd vel rnd (i + 1) ?st))"
    proof (rule particle_after_same [OF eff [unfolded count]])
      show "fst st ! (j * 3) = fst ?st ! (j * 3)"
        using le by (simp add: other_loop_body)
      show "fst st ! (j * 3 + 1) = fst ?st ! (j * 3 + 1)"
        using le by (simp add: other_loop_body)
      show "fst st ! (j * 3 + 2) = fst ?st ! (j * 3 + 2)"
        using le by (simp add: other_loop_body)
    qed (rule refl)+
    then show ?thesis unfolding unfold .
  qed
qed

lemma wrapped_later:
  assumes "a \<le> j" "j < j'" "wraps fadd vel pos j"
  shows "wrapped fadd vel pos a j < wrapped fadd vel pos a j'"
proof -
  have "[a..<j'] = [a..<j] @ j # [j + 1..<j']"
    using assms(1,2) by (metis Suc_eq_plus1 le_less_trans less_imp_le upt_add_eq_append
        upt_conv_Cons le_Suc_ex)
  then show ?thesis using assms(3) by (simp add: wrapped_def)
qed

lemma callback_idle:
  "res \<noteq> Some Win \<Longrightarrow> useFrame_callback fadd (victory_active res) ref vel rnd k = (ref, k)"
  by (simp add: useFrame_callback_def victory_active_def split: option.splits)

lemma example_sizes:
  "length example_positions = particleCount * 3" "0 < particleCount"
  by (simp_all add: example_positions_def particleCount_def)

lemma example_height:
  "6 < example_positions ! (0 * 3 + 1) + example_velocities ! (0 * 3 + 1)"
  by (simp add: example_positions_def example_velocities_def)

text \<open>
  Claim C9, as the program has it. The per-frame update changes nothing unless the result
  is win, and nothing while the points are not mounted. While the result is win and the
  points are mounted, a frame adds to each
  coordinate of each particle its velocity; and a particle whose new height exceeds 6 is
  not taken to the origin: its height becomes -1 and its other two coordinates are
  replaced by two fresh random draws. Fresh: the frame makes two draws for each wrapping
  particle and no other, and a wrapping particle takes the two that follow the draws of
  the wrapping particles before it, the first for x and the second for z.
\<close>

theorem C9_particle_frame:
  assumes "length pos = particleCount * 3" "j < particleCount"
  shows "(res \<noteq> Some Win \<longrightarrow>
            useFrame_callback fadd (victory_active res) ref vel rnd k = (ref, k)) \<and>
         useFrame_callback fadd (victory_active res) None vel rnd k = (None, k) \<and>
         (\<exists>pos'.
            useFrame_callback fadd (victory_active (Some Win)) (Some pos) vel rnd k
              = (Some pos', k + 2 * wrapped fadd vel pos 0 particleCount) \<and>
            length pos' = length pos \<and>
            (if 6 < fadd (pos ! (j * 3 + 1)) (vel ! (j * 3 + 1))
             then pos' ! (j * 3) = rnd (k + 2 * wrapped fadd vel pos 0 j) \<and>
                  pos' ! (j * 3 + 1) = - 1 \<and>
                  pos' ! (j * 3 + 2) = rnd (k + 2 * wrapped fadd vel pos 0 j + 1)
             else pos' ! (j * 3) = fadd (pos ! (j * 3)) (vel ! (j * 3)) \<and>
                  pos' ! (j * 3 + 1) = fadd (pos ! (j * 3 + 1)) (vel ! (j * 3 + 1)) \<and>
                  pos' ! (j * 3 + 2) = fadd (pos ! (j * 3 + 2)) (vel ! (j * 3 + 2))))"
proof (intro conjI)
  show "res \<noteq> Some Win \<longrightarrow>
          useFrame_callback fadd (victory_active res) ref vel rnd k = (ref, k)"
    by (simp add: callback_idle)
next
  show "useFrame_callback fadd (victory_active res) None vel rnd k = (None, k)"
    by (simp add: useFrame_callback_def)
next
  define pos' where "pos' = fst (frame_loop fadd vel rnd 0 (pos, k))"
  have size: "particleCount * 3 \<le> length (fst (pos, k))" using assms(1) by simp
  have "snd (frame_loop fadd vel rnd 0 (pos, k)) = k + 2 * wrapped fadd vel pos 0 particleCount"
    using draws_frame_loop [OF le0 size, of fadd vel rnd] by simp
  then have run: "frame_loop fadd vel rnd 0 (pos, k)
                    = (pos', k + 2 * wrapped fadd vel pos 0 particleCount)"
    by (simp add: pos'_def prod_eq_iff)
  have call: "useFrame_callback fadd (victory_active (Some Win)) (Some pos) vel rnd k
                = (Some pos', k + 2 * wrapped fadd vel pos 0 particleCount)"
    by (simp add: useFrame_callback_def victory_active_def run)
  have len: "length pos' = length pos"
    using length_frame_loop [of fadd vel rnd 0 "(pos, k)"] by (simp add: pos'_def)
  have after: "particle_after fadd vel rnd (k + 2 * wrapped fadd vel pos 0 j) j pos pos'"
    using particle_frame_loop [OF le0 assms(2) size, of fadd vel rnd]
    by (simp add: pos'_def)
  show "\<exists>pos'.
            useFrame_callback fadd (victory_active (Some Win)) (Some pos) vel rnd k
              = (Some pos', k + 2 * wrapped fadd vel pos 0 particleCount) \<and>
            length pos' = length pos \<and>
            (if 6 < fadd (pos ! (j * 3 + 1)) (vel ! (j * 3 + 1))
             then pos' ! (j * 3) = rnd (k + 2 * wrapped fadd vel pos 0 j) \<and>
                  pos' ! (j * 3 + 1) = - 1 \<and>
                  pos' ! (j * 3 + 2) = rnd (k + 2 * wrapped fadd vel pos 0 j + 1)
             else pos' ! (j * 3) = fadd (pos ! (j * 3)) (vel ! (j * 3)) \<and>
                  pos' ! (j * 3 + 1) = fadd (pos ! (j * 3 + 1)) (vel ! (j * 3 + 1)) \<and>
                  pos' ! (j * 3 + 2) = fadd (pos ! (j * 3 + 2)) (vel ! (j * 3 + 2)))"
    by (intro exI [of _ pos'] conjI call len) (rule after [unfolded particle_after_def])
qed

text \<open>
  On the example buffer: nothing moves while the result is lose; while it is win, the first
  particle wraps to the height -1 and takes the first draw for x.
\<close>

theorem C9_particle_frame_witness:
  "useFrame_callback (+) (victory_active (Some Lose)) (Some example_positions)
      example_velocities example_draws 0 = (Some example_positions, 0) \<and>
   (\<exists>pos'. useFrame_callback (+) (victory_active (Some Win)) (Some example_positions)
      example_velocities example_draws 0
        = (Some pos', 0 + 2 * wrapped (+) example_velocities example_positions 0 particleCount) \<and>
      pos' ! (0 * 3) = example_draws 0 \<and> pos' ! (0 * 3 + 1) = - 1)"
proof -
  from C9_particle_frame [OF example_sizes, of "Some Lose" "(+)" "Some example_positions"
      example_velocities example_draws 0]
  obtain pos' where
    "useFrame_callback (+) (victory_active (Some Lose)) (Some example_positions)
       example_velocities example_draws 0 = (Some example_positions, 0)"
    "useFrame_callback (+) (victory_active (Some Win)) (Some example_positions)
       example_velocities example_draws 0
         = (Some pos', 0 + 2 * wrapped (+) example_velocities example_positions 0 particleCount)"
    "if 6 < example_positions ! (0 * 3 + 1) + example_velocities ! (0 * 3 + 1)
     then pos' ! (0 * 3)
            = example_draws (0 + 2 * wrapped (+) example_velocities example_positions 0 0) \<and>
          pos' ! (0 * 3 + 1) = - 1
     else pos' ! (0 * 3 + 1) = example_positions ! (0 * 3 + 1) + example_velocities ! (0 * 3 + 1)"
    by (elim conjE exE) (simp split: if_splits)
  with example_height show ?thesis
    by (intro conjI exI [of _ pos']) (simp_all add: wrapped_none)
qed

text \<open>
  The first particle of the example is at (0, 6, 0) and rises by 1/32, beyond the ceiling.
  After the frame it is at (3, -1, 3), the two draws and the height -1, not at the origin.
\<close>

theorem C9_wrap_counterexample:
  "fst (frame_loop (+) example_velocities example_draws 0 (example_positions, 0)) ! 0 = 3 \<and>
   fst (frame_loop (+) example_velocities example_draws 0 (example_positions, 0)) ! 1 = - 1 \<and>
   fst (frame_loop (+) example_velocities example_draws 0 (example_positions, 0)) ! 2 = 3"
proof -
  define F where "F = fst (frame_loop (+) example_velocities example_draws 0 (example_positions, 0))"
  have "particleCount * 3 \<le> length (fst (example_positions, 0::nat))"
    by (simp add: example_sizes)
  from particle_frame_loop [OF le0 example_sizes(2) this, of "(+)" example_velocities example_draws,
      folded F_def]
  have "particle_after (+) example_velocities example_draws
          (0 + 2 * wrapped (+) example_velocities example_positions 0 0) 0 example_positions F"
    by simp
  with example_height
  have "F ! (0 * 3) = example_draws (0 + 2 * wrapped (+) example_velocities example_positions 0 0)"
    "F ! (0 * 3 + 1) = - 1"
    "F ! (0 * 3 + 2)
       = example_draws (0 + 2 * wrapped (+) example_velocities example_positions 0 0 + 1)"
    by (simp_all add: particle_after_def)
  then have "F ! 0 = 3" "F ! 1 = - 1" "F ! 2 = 3"
    by (simp_all add: example_draws_def numeral_2_eq_2)
  then show ?thesis unfolding F_def by (intro conjI)
qed

end
